theory Spec2Isabelle
  imports Complex_Main
begin

section \<open>Arrays, indices and the object store\<close>

text \<open>
  The program (\<^verbatim>\<open>Game_of_life3d.py\<close>) keeps its lattice in a three-dimensional NumPy
  array of booleans. An array is modelled by its \<open>shape\<close> (depth, height, width) and
  its contents as nested lists, plane by plane, row by row (what \<^verbatim>\<open>tolist()\<close> gives);
  the shape is kept beside the contents because an array with a zero dimension still
  has one.
\<close>

datatype py_error = IndexError

record 'a ndarray =
  shape :: "nat \<times> nat \<times> nat"
  items :: "'a list list list"

text \<open>The contents have the extent the shape announces (true of every NumPy array).\<close>

definition well_shaped :: "'a ndarray \<Rightarrow> bool" where
  "well_shaped a =
     (case shape a of (d, h, w) \<Rightarrow>
        length (items a) = d \<and>
        list_all (\<lambda>p. length p = h \<and> list_all (\<lambda>r. length r = w) p) (items a))"

text \<open>\<^verbatim>\<open>np.zeros(shape)\<close>, with the zero of the element type given.\<close>

definition np_zeros :: "nat \<times> nat \<times> nat \<Rightarrow> 'a \<Rightarrow> 'a ndarray" where
  "np_zeros s zero =
     (case s of (d, h, w) \<Rightarrow>
        \<lparr>shape = s, items = replicate d (replicate h (replicate w zero))\<rparr>)"

text \<open>
  Indexing one axis of extent \<open>n\<close> with a Python integer: \<open>0 \<le> i < n\<close> is the
  position itself, \<open>-n \<le> i < 0\<close> counts from the end, anything else raises
  \<^verbatim>\<open>IndexError\<close>.
\<close>

definition index_axis :: "nat \<Rightarrow> int \<Rightarrow> py_error + nat" where
  "index_axis n i =
     (if 0 \<le> i \<and> i < int n then Inr (nat i)
      else if - int n \<le> i \<and> i < 0 then Inr (nat (i + int n))
      else Inl IndexError)"

text \<open>\<^verbatim>\<open>a[z, y, x]\<close> and \<^verbatim>\<open>a[z, y, x] = v\<close>.\<close>

definition getitem :: "'a ndarray \<Rightarrow> int \<times> int \<times> int \<Rightarrow> py_error + 'a" where
  "getitem a idx =
     (case shape a of (d, h, w) \<Rightarrow> (case idx of (z, y, x) \<Rightarrow>
        (case index_axis d z of
           Inl e \<Rightarrow> Inl e
         | Inr k \<Rightarrow>
             (case index_axis h y of
                Inl e \<Rightarrow> Inl e
              | Inr j \<Rightarrow>
                  (case index_axis w x of
                     Inl e \<Rightarrow> Inl e
                   | Inr i \<Rightarrow> Inr (items a ! k ! j ! i))))))"

definition setitem :: "'a ndarray \<Rightarrow> int \<times> int \<times> int \<Rightarrow> 'a \<Rightarrow> py_error + 'a ndarray" where
  "setitem a idx v =
     (case shape a of (d, h, w) \<Rightarrow> (case idx of (z, y, x) \<Rightarrow>
        (case index_axis d z of
           Inl e \<Rightarrow> Inl e
         | Inr k \<Rightarrow>
             (case index_axis h y of
                Inl e \<Rightarrow> Inl e
              | Inr j \<Rightarrow>
                  (case index_axis w x of
                     Inl e \<Rightarrow> Inl e
                   | Inr i \<Rightarrow>
                       Inr (a\<lparr>items :=
                              (items a)[k := (items a ! k)[j := (items a ! k ! j)[i := v]]]\<rparr>))))))"

text \<open>
  \<^verbatim>\<open>np.ndindex(shape)\<close>: every index triple of the shape, the last axis running
  fastest.
\<close>

definition ndindex :: "nat \<times> nat \<times> nat \<Rightarrow> (int \<times> int \<times> int) list" where
  "ndindex s =
     (case s of (d, h, w) \<Rightarrow>
        concat (map (\<lambda>z. concat (map (\<lambda>y. map (\<lambda>x. (int z, int y, int x)) [0..<w]) [0..<h])) [0..<d]))"

text \<open>
  \<^verbatim>\<open>np.clip(v, a_min, a_max)\<close> on one number, and the basic slice \<^verbatim>\<open>xs[start:stop]\<close>
  of Python: a negative bound counts from the end, every bound is then cut to
  \<open>[0, len]\<close>, and the slice is empty when the start is not below the stop.
\<close>

definition np_clip :: "int \<Rightarrow> int \<Rightarrow> int \<Rightarrow> int" where
  "np_clip v a_min a_max = min a_max (max v a_min)"

definition slice_bound :: "nat \<Rightarrow> int \<Rightarrow> nat" where
  "slice_bound n i = (if i < 0 then nat (max (i + int n) 0) else nat (min i (int n)))"

definition slice :: "int \<times> int \<Rightarrow> 'a list \<Rightarrow> 'a list" where
  "slice b xs =
     (let s = slice_bound (length xs) (fst b); e = slice_bound (length xs) (snd b)
      in take (e - s) (drop s xs))"

text \<open>\<^verbatim>\<open>a[z0:z1, y0:y1, x0:x1]\<close> as nested lists, and \<^verbatim>\<open>np.sum\<close> of booleans.\<close>

definition slice3 ::
  "'a ndarray \<Rightarrow> int \<times> int \<Rightarrow> int \<times> int \<Rightarrow> int \<times> int \<Rightarrow> 'a list list list" where
  "slice3 a zb yb xb = map (\<lambda>p. map (\<lambda>r. slice xb r) (slice yb p)) (slice zb (items a))"

definition np_sum :: "bool list list list \<Rightarrow> int" where
  "np_sum b = (\<Sum>p\<leftarrow>b. \<Sum>r\<leftarrow>p. \<Sum>c\<leftarrow>r. if c then 1 else 0)"

text \<open>
  Python objects are references. The arrays live in a store, a list indexed by
  address; allocating appends. A \<^verbatim>\<open>GameOfLife\<close> object holds the address of its
  current grid, the addresses of the recorded generations (a Python list, appended
  to), and the accumulated calculation time. The plotting axis \<^verbatim>\<open>self.ax\<close> belongs
  to matplotlib and is left out.
\<close>

type_synonym addr = nat
type_synonym store = "bool ndarray list"

record GameOfLife =
  grid :: addr
  prev_generations :: "addr list"
  calculation_time :: real

section \<open>The class GameOfLife\<close>

text \<open>
  \<^verbatim>\<open>__init__(self, grid)\<close> stores the reference it is given, an empty list and 0. It
  inspects nothing, so it has no failing branch; the result type only makes that
  visible.
\<close>

definition GameOfLife_init :: "addr \<Rightarrow> py_error + GameOfLife" where
  "GameOfLife_init g = Inr \<lparr>grid = g, prev_generations = [], calculation_time = 0\<rparr>"

text \<open>
  \<^verbatim>\<open>n_surrounding_cells(self, z, y, x)\<close>: the bounds of the block are clipped to the
  shape, the block is summed, and the cell itself is taken off when it is alive. The
  only operation that can raise is the last read \<^verbatim>\<open>self.grid[z, y, x]\<close>.
\<close>

definition n_surrounding_cells :: "bool ndarray \<Rightarrow> int \<Rightarrow> int \<Rightarrow> int \<Rightarrow> py_error + int" where
  "n_surrounding_cells g z y x =
     (case shape g of (d, h, w) \<Rightarrow>
        let z_bounds = (np_clip (z - 1) 0 (int d), np_clip (z + 2) 0 (int d));
            y_bounds = (np_clip (y - 1) 0 (int h), np_clip (y + 2) 0 (int h));
            x_bounds = (np_clip (x - 1) 0 (int w), np_clip (x + 2) 0 (int w));
            total = np_sum (slice3 g z_bounds y_bounds x_bounds)
        in (case getitem g (z, y, x) of
              Inl e \<Rightarrow> Inl e
            | Inr c \<Rightarrow> Inr (if c then total - 1 else total)))"

text \<open>
  The body of the loop of \<^verbatim>\<open>step\<close> for one index: the value written to
  \<^verbatim>\<open>next_generation[z, y, x]\<close>. Python's \<^verbatim>\<open>and\<close> evaluates its right operand only
  when the left one holds, and the \<^verbatim>\<open>elif\<close> test only when the \<^verbatim>\<open>if\<close> test failed;
  on booleans \<^verbatim>\<open>== 1\<close> is the cell and \<^verbatim>\<open>== 0\<close> its negation.
\<close>

definition step_cell :: "bool ndarray \<Rightarrow> int \<times> int \<times> int \<Rightarrow> py_error + bool" where
  "step_cell g idx =
     (case idx of (z, y, x) \<Rightarrow>
        (case getitem g idx of
           Inl e \<Rightarrow> Inl e
         | Inr c \<Rightarrow>
             (case (if c then (case n_surrounding_cells g z y x of
                                 Inl e \<Rightarrow> Inl e | Inr n \<Rightarrow> Inr (n = 9))
                    else Inr False) of
                Inl e \<Rightarrow> Inl e
              | Inr survives \<Rightarrow>
                  if survives then Inr True
                  else
                    (case getitem g idx of
                       Inl e \<Rightarrow> Inl e
                     | Inr c' \<Rightarrow>
                         (case (if \<not> c' then (case n_surrounding_cells g z y x of
                                                 Inl e \<Rightarrow> Inl e | Inr n \<Rightarrow> Inr (n = 4))
                                else Inr False) of
                            Inl e \<Rightarrow> Inl e
                          | Inr born \<Rightarrow> if born then Inr True else Inr False)))))"

text \<open>
  The loop of \<^verbatim>\<open>step\<close> over the indices still to visit: it reads the array at
  address \<open>g\<close> (\<^verbatim>\<open>self.grid\<close>) and writes the array at address \<open>a\<close>
  (\<^verbatim>\<open>next_generation\<close>), both in the store.
\<close>

fun step_loop :: "addr \<Rightarrow> addr \<Rightarrow> (int \<times> int \<times> int) list \<Rightarrow> store \<Rightarrow> py_error + store" where
  "step_loop g a [] s = Inr s"
| "step_loop g a (idx # rest) s =
     (case step_cell (s ! g) idx of
        Inl e \<Rightarrow> Inl e
      | Inr v \<Rightarrow>
          (case setitem (s ! a) idx v of
             Inl e \<Rightarrow> Inl e
           | Inr arr \<Rightarrow> step_loop g a rest (s[a := arr])))"

text \<open>
  \<^verbatim>\<open>step(self)\<close>. The two readings of \<^verbatim>\<open>time.monotonic()\<close> are parameters.
  \<^verbatim>\<open>np.zeros\<close> allocates the next generation at a fresh address; after the loop
  that one address becomes the current grid and is appended to the recorded
  generations.
\<close>

definition step :: "real \<Rightarrow> real \<Rightarrow> store \<times> GameOfLife \<Rightarrow> py_error + store \<times> GameOfLife" where
  "step start_time end_time st =
     (case st of (s, self) \<Rightarrow>
        let next_generation = length s;
            s1 = s @ [np_zeros (shape (s ! grid self)) False]
        in (case step_loop (grid self) next_generation (ndindex (shape (s ! grid self))) s1 of
              Inl e \<Rightarrow> Inl e
            | Inr s2 \<Rightarrow>
                Inr (s2, self\<lparr>grid := next_generation,
                              prev_generations := prev_generations self @ [next_generation],
                              calculation_time := calculation_time self + (end_time - start_time)\<rparr>)))"

text \<open>
  The driver's loop \<^verbatim>\<open>for i in range(n_generations): game.step()\<close> of
  \<^verbatim>\<open>InputWindow.execute\<close>, one pair of clock readings for each call.
\<close>

fun step_n :: "(real \<times> real) list \<Rightarrow> store \<times> GameOfLife \<Rightarrow> py_error + store \<times> GameOfLife" where
  "step_n [] st = Inr st"
| "step_n (t # ts) st =
     (case step (fst t) (snd t) st of Inl e \<Rightarrow> Inl e | Inr st' \<Rightarrow> step_n ts st')"

text \<open>
  \<^verbatim>\<open>simulate(self)\<close>. The colour map is a local array of shape \<open>10 \<times> 10 \<times> 10\<close> whose
  elements are the colour triples of the last axis. The inner loop visits the indices
  of \<^verbatim>\<open>self.grid.shape\<close>; the right-hand side of an assignment is evaluated before
  the assignment. Colours are exact reals here: the rounding of floating point is not
  modelled. \<^verbatim>\<open>display\<close> hands the generation and the colour map to matplotlib,
  which is outside the model: the model returns the frames handed over, one for each
  recorded generation, and says nothing of what the library does with them.
\<close>

type_synonym rgb = "real \<times> real \<times> real"




section \<open>Notions the properties are stated with\<close>

text \<open>A coordinate of the lattice: each component within \<open>[0, extent)\<close>.\<close>

definition in_bounds :: "nat \<times> nat \<times> nat \<Rightarrow> int \<times> int \<times> int \<Rightarrow> bool" where
  "in_bounds shp idx =
     (case shp of (d, h, w) \<Rightarrow> case idx of (z, y, x) \<Rightarrow>
        0 \<le> z \<and> z < int d \<and> 0 \<le> y \<and> y < int h \<and> 0 \<le> x \<and> x < int w)"

text \<open>
  The neighbours of a cell, in the words of the specification: the other coordinates
  of the lattice in the \<open>3 \<times> 3 \<times> 3\<close> block around it. Nothing outside the lattice
  is a neighbour, and nothing wraps around.
\<close>

definition adjacent :: "int \<times> int \<times> int \<Rightarrow> int \<times> int \<times> int \<Rightarrow> bool" where
  "adjacent p c =
     (case p of (k, j, i) \<Rightarrow> case c of (z, y, x) \<Rightarrow>
        p \<noteq> c \<and> \<bar>k - z\<bar> \<le> 1 \<and> \<bar>j - y\<bar> \<le> 1 \<and> \<bar>i - x\<bar> \<le> 1)"

definition alive :: "bool ndarray \<Rightarrow> int \<times> int \<times> int \<Rightarrow> bool" where
  "alive g p = (getitem g p = Inr True)"

definition alive_neighbours :: "bool ndarray \<Rightarrow> int \<times> int \<times> int \<Rightarrow> (int \<times> int \<times> int) set" where
  "alive_neighbours g c = {p. in_bounds (shape g) p \<and> adjacent p c \<and> alive g p}"

definition corner :: "nat \<times> nat \<times> nat \<Rightarrow> int \<times> int \<times> int \<Rightarrow> bool" where
  "corner shp idx =
     (case shp of (d, h, w) \<Rightarrow> case idx of (z, y, x) \<Rightarrow>
        (z = 0 \<or> z = int d - 1) \<and> (y = 0 \<or> y = int h - 1) \<and> (x = 0 \<or> x = int w - 1))"

text \<open>
  A state of the program as Python can reach it: the references of the object point
  into the store, the arrays there are well shaped, and every recorded generation has
  the shape of the current grid.
\<close>

definition consistent :: "store \<times> GameOfLife \<Rightarrow> bool" where
  "consistent st =
     (case st of (s, self) \<Rightarrow>
        grid self < length s \<and> well_shaped (s ! grid self) \<and>
        list_all (\<lambda>a. a < length s \<and> well_shaped (s ! a) \<and> shape (s ! a) = shape (s ! grid self))
          (prev_generations self))"

text \<open>
  One pass of the inner loop of \<^verbatim>\<open>simulate\<close> over the coordinates of a lattice of
  shape \<open>shp\<close>, relating the colour map before (\<open>prev\<close>) and after (\<open>cur\<close>): at a
  coordinate of the lattice a dead cell is coloured \<open>(1, 1, 0)\<close> and an alive cell
  keeps red 1 and blue 0 while its green goes down by 0.1, not below 0; elsewhere the
  colour map keeps its entry.
\<close>

definition recoloured ::
  "nat \<times> nat \<times> nat \<Rightarrow> bool ndarray \<Rightarrow> rgb ndarray \<Rightarrow> rgb ndarray \<Rightarrow> bool" where
  "recoloured shp generation prev cur =
     (shape cur = shape prev \<and>
      (\<forall>idx. in_bounds (shape prev) idx \<longrightarrow>
         (\<exists>old. getitem prev idx = Inr old \<and>
            getitem cur idx =
              Inr (if in_bounds shp idx
                   then (if alive generation idx
                         then (1, max (fst (snd old) - 0.1) 0, 0) else (1, 1, 0))
                   else old))))"


text \<open>The recorded generations as arrays, oldest first.\<close>

definition snapshots :: "store \<times> GameOfLife \<Rightarrow> bool ndarray list" where
  "snapshots st = (case st of (s, self) \<Rightarrow> map (\<lambda>a. s ! a) (prev_generations self))"

definition current_grid :: "store \<times> GameOfLife \<Rightarrow> bool ndarray" where
  "current_grid st = (case st of (s, self) \<Rightarrow> s ! grid self)"

section \<open>Indexing and assignment\<close>

lemma index_axis_in: "0 \<le> i \<Longrightarrow> i < int n \<Longrightarrow> index_axis n i = Inr (nat i)"
  by (simp add: index_axis_def)


lemma getitem_in:
  "in_bounds (shape a) (z, y, x) \<Longrightarrow> getitem a (z, y, x) = Inr (items a ! nat z ! nat y ! nat x)"
  by (cases "shape a") (simp add: in_bounds_def getitem_def index_axis_in)

lemma setitem_in:
  "in_bounds (shape a) (z, y, x) \<Longrightarrow>
   setitem a (z, y, x) v =
     Inr (a\<lparr>items := (items a)[nat z := (items a ! nat z)[nat y := (items a ! nat z ! nat y)[nat x := v]]]\<rparr>)"
  by (cases "shape a") (simp add: in_bounds_def setitem_def index_axis_in)

lemma setitem_shape: "setitem a idx v = Inr b \<Longrightarrow> shape b = shape a"
  by (cases "shape a"; cases idx) (auto simp: setitem_def split: sum.splits)

lemma well_shaped_nth:
  "well_shaped a \<Longrightarrow> shape a = (d, h, w) \<Longrightarrow>
   length (items a) = d \<and> (\<forall>k<d. length (items a ! k) = h \<and> (\<forall>j<h. length (items a ! k ! j) = w))"
  by (auto simp: well_shaped_def list_all_length)

lemma well_shaped_iff:
  "well_shaped a \<longleftrightarrow>
   (case shape a of (d, h, w) \<Rightarrow>
      length (items a) = d \<and> (\<forall>k<d. length (items a ! k) = h \<and> (\<forall>j<h. length (items a ! k ! j) = w)))"
  by (cases "shape a") (auto simp: well_shaped_def list_all_length)

lemma index_axis_less: "index_axis n i = Inr k \<Longrightarrow> k < n"
  by (auto simp: index_axis_def split: if_splits)

lemma list_all_update: "list_all P xs \<Longrightarrow> P v \<Longrightarrow> list_all P (xs[k := v])"
  by (induction xs arbitrary: k) (auto split: nat.splits)

lemma setitem_well_shaped:
  assumes "well_shaped a" "setitem a idx v = Inr b"
  shows "well_shaped b"
proof -
  obtain d h w where s: "shape a = (d, h, w)" by (cases "shape a")
  obtain z y x where i: "idx = (z, y, x)" by (cases idx)
  from assms(2) s i obtain k j l where
    b: "b = a\<lparr>items := (items a)[k := (items a ! k)[j := (items a ! k ! j)[l := v]]]\<rparr>"
    and k: "k < d" and j: "j < h"
    by (auto simp: setitem_def split: sum.splits dest: index_axis_less)
  from assms(1) s have len: "length (items a) = d"
    and planes: "list_all (\<lambda>p. length p = h \<and> list_all (\<lambda>r. length r = w) p) (items a)"
    by (simp_all add: well_shaped_def)
  from planes k len have pk: "length (items a ! k) = h" "list_all (\<lambda>r. length r = w) (items a ! k)"
    by (simp_all add: list_all_length)
  from pk j have rj: "length (items a ! k ! j) = w"
    by (simp add: list_all_length)
  have "list_all (\<lambda>r. length r = w) ((items a ! k)[j := (items a ! k ! j)[l := v]])"
    using pk(2) rj by (intro list_all_update) simp_all
  with pk(1) planes
  have "list_all (\<lambda>p. length p = h \<and> list_all (\<lambda>r. length r = w) p)
          ((items a)[k := (items a ! k)[j := (items a ! k ! j)[l := v]]])"
    by (intro list_all_update) simp_all
  with len s show ?thesis
    unfolding b by (simp add: well_shaped_def)
qed

lemma getitem_setitem:
  assumes "well_shaped a" "in_bounds (shape a) idx" "in_bounds (shape a) idx'"
    and "setitem a idx v = Inr b"
  shows "getitem b idx' = (if idx' = idx then Inr v else getitem a idx')"
proof -
  obtain d h w where s: "shape a = (d, h, w)" by (cases "shape a")
  obtain z y x where i: "idx = (z, y, x)" by (cases idx)
  obtain z' y' x' where i': "idx' = (z', y', x')" by (cases idx')
  have sb: "shape b = shape a" using assms(4) by (rule setitem_shape)
  from assms(4) assms(2) have
    b: "b = a\<lparr>items := (items a)[nat z := (items a ! nat z)[nat y := (items a ! nat z ! nat y)[nat x := v]]]\<rparr>"
    unfolding i by (simp add: setitem_in)
  have ib: "in_bounds (shape b) (z', y', x')" using assms(3) sb i' by simp
  from assms(1) s have ws: "length (items a) = d"
    "\<And>k. k < d \<Longrightarrow> length (items a ! k) = h"
    "\<And>k j. k < d \<Longrightarrow> j < h \<Longrightarrow> length (items a ! k ! j) = w"
    by (auto simp: well_shaped_iff)
  from assms(2,3) s i i' have r: "nat z < d" "nat y < h" "nat x < w" "nat z' < d" "nat y' < h" "nat x' < w"
    "0 \<le> z" "0 \<le> y" "0 \<le> x" "0 \<le> z'" "0 \<le> y'" "0 \<le> x'"
    by (auto simp: in_bounds_def)
  show ?thesis
    unfolding i' getitem_in[OF ib] getitem_in[OF assms(3)[unfolded i']]
    using r ws unfolding b i
    by (auto simp: nth_list_update)
qed

lemma set_ndindex: "set (ndindex shp) = {idx. in_bounds shp idx}"
proof -
  obtain d h w where s: "shp = (d, h, w)" by (cases shp)
  have "idx \<in> set (ndindex (d, h, w)) \<longleftrightarrow> in_bounds (d, h, w) idx" for idx
  proof (cases idx)
    case (fields z y x)
    have "(z, y, x) \<in> set (ndindex (d, h, w)) \<longleftrightarrow>
          (\<exists>k<d. \<exists>j<h. \<exists>i<w. z = int k \<and> y = int j \<and> x = int i)"
    proof -
      have "set (ndindex (d, h, w)) =
            (\<Union>k\<in>{0..<d}. \<Union>j\<in>{0..<h}. (\<lambda>i. (int k, int j, int i)) ` {0..<w})"
        by (simp add: ndindex_def)
      also have "\<dots> = {(int k, int j, int i) | k j i. k < d \<and> j < h \<and> i < w}"
        by (auto simp: image_iff)
      finally show ?thesis by auto
    qed
    also have "\<dots> \<longleftrightarrow> in_bounds (d, h, w) (z, y, x)"
    proof
      assume "in_bounds (d, h, w) (z, y, x)"
      then have "nat z < d \<and> nat y < h \<and> nat x < w \<and> z = int (nat z) \<and> y = int (nat y) \<and> x = int (nat x)"
        by (auto simp: in_bounds_def)
      then show "\<exists>k<d. \<exists>j<h. \<exists>i<w. z = int k \<and> y = int j \<and> x = int i"
        by blast
    qed (auto simp: in_bounds_def)
    finally show ?thesis using fields by simp
  qed
  then show ?thesis using s by auto
qed

section \<open>One generation\<close>

lemma n_surrounding_cells_total:
  "in_bounds (shape g) (z, y, x) \<Longrightarrow> \<exists>n. n_surrounding_cells g z y x = Inr n"
  by (cases "shape g") (simp add: n_surrounding_cells_def getitem_in Let_def)

lemma step_cell_in:
  assumes "in_bounds (shape g) (z, y, x)"
  shows "\<exists>c n. getitem g (z, y, x) = Inr c \<and> n_surrounding_cells g z y x = Inr n \<and>
               step_cell g (z, y, x) = Inr ((c \<and> n = 9) \<or> (\<not> c \<and> n = 4))"
proof -
  from n_surrounding_cells_total[OF assms] obtain n where n: "n_surrounding_cells g z y x = Inr n" ..
  have c: "getitem g (z, y, x) = Inr (items g ! nat z ! nat y ! nat x)"
    using assms by (rule getitem_in)
  show ?thesis
    by (simp add: step_cell_def n c)
qed

lemma step_loop_correct:
  assumes "g \<noteq> a" "g < length s" "a < length s"
    and "well_shaped (s ! a)" "shape (s ! a) = shape (s ! g)"
    and "\<forall>idx \<in> set idxs. in_bounds (shape (s ! g)) idx"
  shows "\<exists>arr. step_loop g a idxs s = Inr (s[a := arr]) \<and> shape arr = shape (s ! g) \<and>
           well_shaped arr \<and>
           (\<forall>idx. in_bounds (shape (s ! g)) idx \<longrightarrow>
              getitem arr idx = (if idx \<in> set idxs then step_cell (s ! g) idx else getitem (s ! a) idx))"
  using assms
proof (induction idxs arbitrary: s)
  case Nil
  then show ?case
    by (intro exI[of _ "s ! a"]) simp
next
  case (Cons idx rest)
  obtain z y x where idx: "idx = (z, y, x)" by (cases idx)
  from Cons.prems(6) have ib: "in_bounds (shape (s ! g)) idx" by simp
  from step_cell_in[of "s ! g" z y x] ib idx obtain v where v: "step_cell (s ! g) idx = Inr v"
    by auto
  from ib Cons.prems(5) have iba: "in_bounds (shape (s ! a)) idx" by simp
  from setitem_in[of "s ! a" z y x v] iba idx obtain arr0 where arr0: "setitem (s ! a) idx v = Inr arr0"
    by auto
  let ?s = "s[a := arr0]"
  have sh0: "shape arr0 = shape (s ! a)" using arr0 by (rule setitem_shape)
  have ws0: "well_shaped arr0" using Cons.prems(4) arr0 by (rule setitem_well_shaped)
  have g': "?s ! g = s ! g" using Cons.prems(1) by simp
  have a': "?s ! a = arr0" using Cons.prems(3) by simp
  have "\<exists>arr. step_loop g a rest ?s = Inr (?s[a := arr]) \<and> shape arr = shape (?s ! g) \<and>
           well_shaped arr \<and>
           (\<forall>idx. in_bounds (shape (?s ! g)) idx \<longrightarrow>
              getitem arr idx = (if idx \<in> set rest then step_cell (?s ! g) idx else getitem (?s ! a) idx))"
    using Cons.prems ws0 sh0 by (intro Cons.IH) (simp_all add: g' a')
  then obtain arr where arr: "step_loop g a rest ?s = Inr (?s[a := arr])" "shape arr = shape (s ! g)"
    "well_shaped arr"
    and items: "\<And>i. in_bounds (shape (s ! g)) i \<Longrightarrow>
              getitem arr i = (if i \<in> set rest then step_cell (s ! g) i else getitem arr0 i)"
    unfolding g' a' by blast
  have "getitem arr i = (if i \<in> set (idx # rest) then step_cell (s ! g) i else getitem (s ! a) i)"
    if i: "in_bounds (shape (s ! g)) i" for i
  proof -
    have "getitem arr0 i = (if i = idx then Inr v else getitem (s ! a) i)"
      using Cons.prems(4) iba i arr0 Cons.prems(5) by (intro getitem_setitem) simp_all
    with items[OF i] v show ?thesis by auto
  qed
  with arr show ?case
    by (intro exI[of _ arr]) (simp add: v arr0)
qed

lemma np_zeros_shape: "shape (np_zeros shp v) = shp"
  by (cases shp) (simp add: np_zeros_def)

lemma np_zeros_well_shaped: "well_shaped (np_zeros shp v)"
  by (cases shp) (simp add: np_zeros_def well_shaped_def list_all_length)

lemma ndarray_eqI:
  fixes a b :: "'a ndarray"
  assumes "well_shaped a" "well_shaped b" "shape a = shape b"
    and "\<And>idx. in_bounds (shape a) idx \<Longrightarrow> getitem a idx = getitem b idx"
  shows "a = b"
proof -
  obtain d h w where s: "shape a = (d, h, w)" by (cases "shape a")
  with assms(3) have sb: "shape b = (d, h, w)" by simp
  from assms(1) s have la: "length (items a) = d"
    "\<And>k. k < d \<Longrightarrow> length (items a ! k) = h"
    "\<And>k j. k < d \<Longrightarrow> j < h \<Longrightarrow> length (items a ! k ! j) = w"
    by (auto simp: well_shaped_iff)
  from assms(2) sb have lb: "length (items b) = d"
    "\<And>k. k < d \<Longrightarrow> length (items b ! k) = h"
    "\<And>k j. k < d \<Longrightarrow> j < h \<Longrightarrow> length (items b ! k ! j) = w"
    by (auto simp: well_shaped_iff)
  have cell: "items a ! k ! j ! i = items b ! k ! j ! i" if "k < d" "j < h" "i < w" for k j i
  proof -
    have ib: "in_bounds (shape a) (int k, int j, int i)"
      using that s by (simp add: in_bounds_def)
    then have ib': "in_bounds (shape b) (int k, int j, int i)"
      using assms(3) by simp
    from assms(4)[OF ib] show ?thesis
      unfolding getitem_in[OF ib] getitem_in[OF ib'] by simp
  qed
  have "items a = items b"
  proof (rule nth_equalityI)
    show "length (items a) = length (items b)" using la(1) lb(1) by simp
  next
    fix k assume "k < length (items a)"
    then have k: "k < d" using la(1) by simp
    show "items a ! k = items b ! k"
    proof (rule nth_equalityI)
      show "length (items a ! k) = length (items b ! k)" using la(2) lb(2) k by simp
    next
      fix j assume "j < length (items a ! k)"
      then have j: "j < h" using la(2) k by simp
      show "items a ! k ! j = items b ! k ! j"
      proof (rule nth_equalityI)
        show "length (items a ! k ! j) = length (items b ! k ! j)" using la(3) lb(3) k j by simp
      next
        fix i assume "i < length (items a ! k ! j)"
        then have "i < w" using la(3) k j by simp
        with k j show "items a ! k ! j ! i = items b ! k ! j ! i" by (rule cell)
      qed
    qed
  qed
  with assms(3) show ?thesis by simp
qed

lemma step_result:
  assumes "grid self < length s"
  shows "\<exists>arr. step t0 t1 (s, self) =
           Inr (s @ [arr], self\<lparr>grid := length s,
                               prev_generations := prev_generations self @ [length s],
                               calculation_time := calculation_time self + (t1 - t0)\<rparr>) \<and>
           shape arr = shape (s ! grid self) \<and> well_shaped arr \<and>
           (\<forall>idx. in_bounds (shape (s ! grid self)) idx \<longrightarrow>
              getitem arr idx = step_cell (s ! grid self) idx)"
proof -
  let ?g = "grid self" and ?a = "length s"
  let ?s1 = "s @ [np_zeros (shape (s ! ?g)) False]"
  have g1: "?s1 ! ?g = s ! ?g" using assms by (simp add: nth_append)
  have a1: "?s1 ! ?a = np_zeros (shape (s ! ?g)) False" by simp
  have "?g \<noteq> ?a" "?g < length ?s1" "?a < length ?s1" "well_shaped (?s1 ! ?a)"
    "shape (?s1 ! ?a) = shape (?s1 ! ?g)"
    "\<forall>idx \<in> set (ndindex (shape (s ! ?g))). in_bounds (shape (?s1 ! ?g)) idx"
    using assms by (simp_all add: g1 np_zeros_shape np_zeros_well_shaped set_ndindex)
  from step_loop_correct[OF this]
  obtain arr where arr: "step_loop ?g ?a (ndindex (shape (s ! ?g))) ?s1 = Inr (s @ [arr])"
    "shape arr = shape (s ! ?g)" "well_shaped arr"
    "\<And>idx. in_bounds (shape (s ! ?g)) idx \<Longrightarrow> getitem arr idx = step_cell (s ! ?g) idx"
    unfolding g1 by (auto simp: set_ndindex)
  show ?thesis
    by (intro exI[of _ arr]) (simp add: step_def Let_def arr)
qed

section \<open>Several generations\<close>

lemma step_consistent:
  assumes "consistent (s, self)"
  shows "\<exists>arr self'. step t0 t1 (s, self) = Inr (s @ [arr], self') \<and>
           consistent (s @ [arr], self') \<and>
           current_grid (s @ [arr], self') = arr \<and>
           snapshots (s @ [arr], self') = snapshots (s, self) @ [arr] \<and>
           prev_generations self' = prev_generations self @ [length s] \<and>
           shape arr = shape (s ! grid self) \<and>
           (\<forall>idx. in_bounds (shape (s ! grid self)) idx \<longrightarrow>
              getitem arr idx = step_cell (s ! grid self) idx)"
proof -
  from assms have g: "grid self < length s"
    and old: "list_all (\<lambda>a. a < length s \<and> well_shaped (s ! a) \<and> shape (s ! a) = shape (s ! grid self))
                (prev_generations self)"
    by (simp_all add: consistent_def)
  let ?self' = "self\<lparr>grid := length s, prev_generations := prev_generations self @ [length s],
                     calculation_time := calculation_time self + (t1 - t0)\<rparr>"
  from step_result[OF g, of t0 t1] obtain arr where
    arr: "step t0 t1 (s, self) = Inr (s @ [arr], ?self')" "shape arr = shape (s ! grid self)"
      "well_shaped arr"
      "\<forall>idx. in_bounds (shape (s ! grid self)) idx \<longrightarrow> getitem arr idx = step_cell (s ! grid self) idx"
    by blast
  have keep: "(s @ [arr]) ! a = s ! a" if "a < length s" for a
    using that by (simp add: nth_append)
  have "list_all (\<lambda>a. a < length (s @ [arr]) \<and> well_shaped ((s @ [arr]) ! a) \<and>
                      shape ((s @ [arr]) ! a) = shape arr) (prev_generations self)"
    using old arr(2) by (auto simp: list_all_iff keep)
  then have c: "consistent (s @ [arr], ?self')"
    using arr(3) by (simp add: consistent_def)
  have "map (\<lambda>a. (s @ [arr]) ! a) (prev_generations self) = map (\<lambda>a. s ! a) (prev_generations self)"
    using old by (intro map_cong) (auto simp: list_all_iff keep)
  then have sn: "snapshots (s @ [arr], ?self') = snapshots (s, self) @ [arr]"
    by (simp add: snapshots_def)
  show ?thesis
    using arr c sn by (intro exI[of _ arr] exI[of _ ?self']) (simp add: current_grid_def)
qed

lemma step_n_result:
  assumes "consistent (s, self)"
  shows "\<exists>new self'. step_n ts (s, self) = Inr (s @ new, self') \<and>
           consistent (s @ new, self') \<and> length new = length ts \<and>
           current_grid (s @ new, self') = last (s ! grid self # new) \<and>
           snapshots (s @ new, self') = snapshots (s, self) @ new \<and>
           prev_generations self' = prev_generations self @ [length s..<length s + length ts] \<and>
           shape (current_grid (s @ new, self')) = shape (s ! grid self)"
  using assms
proof (induction ts arbitrary: s self)
  case Nil
  then show ?case
    by (intro exI[of _ "[]"] exI[of _ self]) (simp add: current_grid_def)
next
  case (Cons t ts)
  from step_consistent[OF Cons.prems, of "fst t" "snd t"] obtain arr self1 where
    one: "step (fst t) (snd t) (s, self) = Inr (s @ [arr], self1)"
      "consistent (s @ [arr], self1)" "current_grid (s @ [arr], self1) = arr"
      "snapshots (s @ [arr], self1) = snapshots (s, self) @ [arr]"
      "prev_generations self1 = prev_generations self @ [length s]"
      "shape arr = shape (s ! grid self)"
    by blast
  from Cons.IH[OF one(2)] obtain new self' where
    rest: "step_n ts (s @ [arr], self1) = Inr ((s @ [arr]) @ new, self')"
      "consistent ((s @ [arr]) @ new, self')" "length new = length ts"
      "current_grid ((s @ [arr]) @ new, self') = last ((s @ [arr]) ! grid self1 # new)"
      "snapshots ((s @ [arr]) @ new, self') = snapshots (s @ [arr], self1) @ new"
      "prev_generations self' = prev_generations self1 @ [length (s @ [arr])..<length (s @ [arr]) + length ts]"
      "shape (current_grid ((s @ [arr]) @ new, self')) = shape ((s @ [arr]) ! grid self1)"
    by blast
  have g1: "(s @ [arr]) ! grid self1 = arr"
    using one(3) by (simp add: current_grid_def)
  have upt: "[length s..<length s + length (t # ts)] = length s # [Suc (length s)..<Suc (length s) + length ts]"
    by (simp add: upt_rec)
  show ?case
    using one rest g1 upt
    by (intro exI[of _ "arr # new"] exI[of _ self']) simp
qed

lemma step_n_append:
  "step_n (ts1 @ ts2) st = (case step_n ts1 st of Inl e \<Rightarrow> Inl e | Inr st' \<Rightarrow> step_n ts2 st')"
  by (induction ts1 arbitrary: st) (auto split: sum.splits)

lemma init_consistent:
  "GameOfLife_init g = Inr self \<Longrightarrow> g < length s \<Longrightarrow> well_shaped (s ! g) \<Longrightarrow> consistent (s, self)"
  by (auto simp: GameOfLife_init_def consistent_def)

lemma step_n_deterministic:
  assumes "consistent (s1, self1)" "consistent (s2, self2)"
    and "s1 ! grid self1 = s2 ! grid self2" "length ts1 = length ts2"
  shows "\<exists>new self1' self2'. step_n ts1 (s1, self1) = Inr (s1 @ new, self1') \<and>
           step_n ts2 (s2, self2) = Inr (s2 @ new, self2')"
  using assms
proof (induction ts1 arbitrary: ts2 s1 self1 s2 self2)
  case Nil
  then show ?case by (intro exI[of _ "[]"]) simp
next
  case (Cons t1 ts1)
  from Cons.prems(4) obtain t2 ts2' where ts2: "ts2 = t2 # ts2'" "length ts1 = length ts2'"
    by (cases ts2) auto
  from step_consistent[OF Cons.prems(1), of "fst t1" "snd t1"] obtain arr1 self1a where
    one: "step (fst t1) (snd t1) (s1, self1) = Inr (s1 @ [arr1], self1a)"
      "consistent (s1 @ [arr1], self1a)" "current_grid (s1 @ [arr1], self1a) = arr1"
      "shape arr1 = shape (s1 ! grid self1)"
      "\<And>idx. in_bounds (shape (s1 ! grid self1)) idx \<Longrightarrow> getitem arr1 idx = step_cell (s1 ! grid self1) idx"
    by blast
  from step_consistent[OF Cons.prems(2), of "fst t2" "snd t2"] obtain arr2 self2a where
    two: "step (fst t2) (snd t2) (s2, self2) = Inr (s2 @ [arr2], self2a)"
      "consistent (s2 @ [arr2], self2a)" "current_grid (s2 @ [arr2], self2a) = arr2"
      "shape arr2 = shape (s2 ! grid self2)"
      "\<And>idx. in_bounds (shape (s2 ! grid self2)) idx \<Longrightarrow> getitem arr2 idx = step_cell (s2 ! grid self2) idx"
    by blast
  have ws: "well_shaped arr1" "well_shaped arr2"
    using one(2,3) two(2,3) by (simp_all add: consistent_def current_grid_def)
  have eq: "arr1 = arr2"
    using ws one(4,5) two(4,5) Cons.prems(3) by (intro ndarray_eqI) simp_all
  have same: "(s1 @ [arr1]) ! grid self1a = (s2 @ [arr2]) ! grid self2a"
    using one(3) two(3) eq by (simp add: current_grid_def)
  from Cons.IH[OF one(2) two(2) same ts2(2)] obtain new self1' self2' where
    rest: "step_n ts1 (s1 @ [arr1], self1a) = Inr ((s1 @ [arr1]) @ new, self1')"
      "step_n ts2' (s2 @ [arr2], self2a) = Inr ((s2 @ [arr2]) @ new, self2')"
    by blast
  show ?case
    using one(1) two(1) rest eq ts2(1)
    by (intro exI[of _ "arr1 # new"] exI[of _ self1'] exI[of _ self2']) simp
qed

text \<open>Every state reached from a fresh object by calls of \<^verbatim>\<open>step\<close> is consistent.\<close>

lemma reachable_consistent:
  assumes "GameOfLife_init g = Inr self" "g < length s" "well_shaped (s ! g)"
  shows "\<exists>st. step_n ts (s, self) = Inr st \<and> consistent st"
  using step_n_result[OF init_consistent[OF assms], of ts] by blast

section \<open>Counting the block\<close>

lemma slice_nth:
  assumes "0 \<le> lo" "lo \<le> int (length xs)" "0 \<le> hi" "hi \<le> int (length xs)"
  shows "slice (lo, hi) xs = map (\<lambda>i. xs ! i) [nat lo..<nat hi]"
proof -
  have b: "slice_bound (length xs) lo = nat lo" "slice_bound (length xs) hi = nat hi"
    using assms by (simp_all add: slice_bound_def min_def)
  have h: "nat hi \<le> length xs" using assms by simp
  have "take (nat hi - nat lo) (drop (nat lo) (map (\<lambda>i. xs ! i) [0..<length xs])) =
        map (\<lambda>i. xs ! i) [nat lo..<nat hi]"
  proof (cases "nat lo \<le> nat hi")
    case True
    with h show ?thesis by (simp add: take_map drop_map)
  next
    case False
    then show ?thesis by simp
  qed
  then show ?thesis
    by (simp add: slice_def b map_nth)
qed

lemma np_clip_bounds:
  assumes "0 \<le> c" "c < int n"
  shows "np_clip (c - 1) 0 (int n) = max (c - 1) 0" "np_clip (c + 2) 0 (int n) = min (int n) (c + 2)"
  using assms by (simp_all add: np_clip_def)

lemma sum_indicator_card:
  "finite S \<Longrightarrow> (\<Sum>p\<in>S. if P p then 1 else 0) = int (card {p \<in> S. P p})"
  by (simp add: sum.inter_filter[symmetric])


lemma block_sum:
  assumes ws: "well_shaped g" and sh: "shape g = (d, h, w)"
    and z: "0 \<le> z0" "z0 \<le> int d" "0 \<le> z1" "z1 \<le> int d"
    and y: "0 \<le> y0" "y0 \<le> int h" "0 \<le> y1" "y1 \<le> int h"
    and x: "0 \<le> x0" "x0 \<le> int w" "0 \<le> x1" "x1 \<le> int w"
  shows "np_sum (slice3 g (z0, z1) (y0, y1) (x0, x1)) =
           (\<Sum>k = nat z0..<nat z1. \<Sum>j = nat y0..<nat y1. \<Sum>i = nat x0..<nat x1.
              if items g ! k ! j ! i then 1 else 0)"
proof -
  from ws sh have len: "length (items g) = d"
    "\<And>k. k < d \<Longrightarrow> length (items g ! k) = h"
    "\<And>k j. k < d \<Longrightarrow> j < h \<Longrightarrow> length (items g ! k ! j) = w"
    by (auto simp: well_shaped_iff)
  have row: "slice (x0, x1) (items g ! k ! j) = map (\<lambda>i. items g ! k ! j ! i) [nat x0..<nat x1]"
    if "k < d" "j < h" for k j
    using x len(3)[OF that] by (intro slice_nth) simp_all
  have plane: "map (\<lambda>r. slice (x0, x1) r) (slice (y0, y1) (items g ! k)) =
               map (\<lambda>j. map (\<lambda>i. items g ! k ! j ! i) [nat x0..<nat x1]) [nat y0..<nat y1]"
    if k: "k < d" for k
  proof -
    have "slice (y0, y1) (items g ! k) = map (\<lambda>j. items g ! k ! j) [nat y0..<nat y1]"
      using y len(2)[OF k] by (intro slice_nth) simp_all
    moreover have "j < h" if "j \<in> set [nat y0..<nat y1]" for j
      using that y by auto
    ultimately show ?thesis
      using k by (simp add: row)
  qed
  have "slice (z0, z1) (items g) = map (\<lambda>k. items g ! k) [nat z0..<nat z1]"
    using z len(1) by (intro slice_nth) simp_all
  moreover have "k < d" if "k \<in> set [nat z0..<nat z1]" for k
    using that z by auto
  ultimately have blk: "slice3 g (z0, z1) (y0, y1) (x0, x1) =
      map (\<lambda>k. map (\<lambda>j. map (\<lambda>i. items g ! k ! j ! i) [nat x0..<nat x1]) [nat y0..<nat y1])
        [nat z0..<nat z1]"
    by (simp add: slice3_def plane)
  show ?thesis
    unfolding blk np_sum_def
    by (simp add: comp_def interv_sum_list_conv_sum_set_nat)
qed


lemma axis_block:
  assumes "0 \<le> c" "c < int n"
  shows "k \<in> {nat (max (c - 1) 0)..<nat (min (int n) (c + 2))} \<longleftrightarrow> k < n \<and> \<bar>int k - c\<bar> \<le> 1"
  using assms unfolding atLeastLessThan_iff by arith

lemma block_card:
  assumes sh: "shape g = (d, h, w)" and ib: "in_bounds (d, h, w) (z, y, x)"
  shows "(\<Sum>k = nat (max (z - 1) 0)..<nat (min (int d) (z + 2)).
          \<Sum>j = nat (max (y - 1) 0)..<nat (min (int h) (y + 2)).
          \<Sum>i = nat (max (x - 1) 0)..<nat (min (int w) (x + 2)).
             if items g ! k ! j ! i then 1 else 0) =
         int (card {p. in_bounds (d, h, w) p \<and>
                       \<bar>fst p - z\<bar> \<le> 1 \<and> \<bar>fst (snd p) - y\<bar> \<le> 1 \<and> \<bar>snd (snd p) - x\<bar> \<le> 1 \<and>
                       alive g p})"
    (is "?lhs = int (card ?S)")
proof -
  let ?A = "{nat (max (z - 1) 0)..<nat (min (int d) (z + 2))}"
  let ?B = "{nat (max (y - 1) 0)..<nat (min (int h) (y + 2))}"
  let ?C = "{nat (max (x - 1) 0)..<nat (min (int w) (x + 2))}"
  let ?P = "\<lambda>p :: nat \<times> nat \<times> nat. items g ! fst p ! fst (snd p) ! snd (snd p)"
  let ?phi = "\<lambda>p :: nat \<times> nat \<times> nat. (int (fst p), int (fst (snd p)), int (snd (snd p)))"
  have "?lhs = (\<Sum>p\<in>?A \<times> ?B \<times> ?C. if ?P p then 1 else 0)"
    by (simp add: sum.cartesian_product split_def)
  also have "\<dots> = int (card {p \<in> ?A \<times> ?B \<times> ?C. ?P p})"
    by (intro sum_indicator_card) simp
  also have "card {p \<in> ?A \<times> ?B \<times> ?C. ?P p} = card (?phi ` {p \<in> ?A \<times> ?B \<times> ?C. ?P p})"
    by (intro card_image[symmetric] inj_onI) (auto simp: prod_eq_iff)
  also have "?phi ` {p \<in> ?A \<times> ?B \<times> ?C. ?P p} = ?S"
  proof (intro set_eqI iffI)
    fix p assume "p \<in> ?phi ` {p \<in> ?A \<times> ?B \<times> ?C. ?P p}"
    then obtain k j i where p: "p = (int k, int j, int i)"
      and r: "k \<in> ?A" "j \<in> ?B" "i \<in> ?C" and c: "items g ! k ! j ! i"
      by auto
    from ib have c0: "0 \<le> z" "z < int d" "0 \<le> y" "y < int h" "0 \<le> x" "x < int w"
      by (simp_all add: in_bounds_def)
    from r have kji: "k < d \<and> \<bar>int k - z\<bar> \<le> 1" "j < h \<and> \<bar>int j - y\<bar> \<le> 1"
      "i < w \<and> \<bar>int i - x\<bar> \<le> 1"
      using c0 by (simp_all only: axis_block)
    then have b: "in_bounds (shape g) (int k, int j, int i)"
      unfolding sh by (simp add: in_bounds_def)
    from kji have n: "\<bar>int k - z\<bar> \<le> 1" "\<bar>int j - y\<bar> \<le> 1" "\<bar>int i - x\<bar> \<le> 1"
      by simp_all
    from c have "alive g (int k, int j, int i)"
      unfolding alive_def getitem_in[OF b] by simp
    with b n show "p \<in> ?S" unfolding p sh by simp
  next
    fix p assume "p \<in> ?S"
    then obtain pz py px where p: "p = (pz, py, px)"
      and b: "in_bounds (d, h, w) (pz, py, px)"
      and n: "\<bar>pz - z\<bar> \<le> 1" "\<bar>py - y\<bar> \<le> 1" "\<bar>px - x\<bar> \<le> 1"
      and a: "alive g (pz, py, px)"
      by (cases p) auto
    from b have b': "in_bounds (shape g) (pz, py, px)" unfolding sh .
    from a have c: "items g ! nat pz ! nat py ! nat px"
      unfolding alive_def getitem_in[OF b'] by simp
    from ib have c0: "0 \<le> z" "z < int d" "0 \<le> y" "y < int h" "0 \<le> x" "x < int w"
      by (simp_all add: in_bounds_def)
    from b n have "nat pz < d \<and> \<bar>int (nat pz) - z\<bar> \<le> 1" "nat py < h \<and> \<bar>int (nat py) - y\<bar> \<le> 1"
      "nat px < w \<and> \<bar>int (nat px) - x\<bar> \<le> 1"
      by (auto simp: in_bounds_def)
    then have "nat pz \<in> ?A" "nat py \<in> ?B" "nat px \<in> ?C"
      using c0 by (simp_all only: axis_block)
    with c have "(nat pz, nat py, nat px) \<in> {p \<in> ?A \<times> ?B \<times> ?C. ?P p}" by simp
    moreover from b have "p = ?phi (nat pz, nat py, nat px)"
      unfolding p by (simp add: in_bounds_def)
    ultimately show "p \<in> ?phi ` {p \<in> ?A \<times> ?B \<times> ?C. ?P p}" by (rule rev_image_eqI)
  qed
  finally show ?thesis .
qed


lemma finite_in_bounds: "finite {p. in_bounds shp p}"
  unfolding set_ndindex[symmetric] by simp

lemma axis_card:
  assumes "0 \<le> c" "c < int n"
  shows "card {k. k < n \<and> \<bar>int k - c\<bar> \<le> 1} \<le> 3"
    and "c = 0 \<or> c = int n - 1 \<Longrightarrow> card {k. k < n \<and> \<bar>int k - c\<bar> \<le> 1} \<le> 2"
proof -
  have eq: "{k. k < n \<and> \<bar>int k - c\<bar> \<le> 1} = {nat (max (c - 1) 0)..<nat (min (int n) (c + 2))}"
    using axis_block[OF assms] by blast
  show "card {k. k < n \<and> \<bar>int k - c\<bar> \<le> 1} \<le> 3"
    unfolding eq using assms by simp
  show "card {k. k < n \<and> \<bar>int k - c\<bar> \<le> 1} \<le> 2" if "c = 0 \<or> c = int n - 1"
    unfolding eq using assms that by auto
qed

lemma block_size:
  assumes ib: "in_bounds (d, h, w) (z, y, x)"
  shows "card {p. in_bounds (d, h, w) p \<and>
                  \<bar>fst p - z\<bar> \<le> 1 \<and> \<bar>fst (snd p) - y\<bar> \<le> 1 \<and> \<bar>snd (snd p) - x\<bar> \<le> 1} \<le> 27"
    (is "card ?N \<le> 27")
    and "corner (d, h, w) (z, y, x) \<Longrightarrow>
         card {p. in_bounds (d, h, w) p \<and>
                  \<bar>fst p - z\<bar> \<le> 1 \<and> \<bar>fst (snd p) - y\<bar> \<le> 1 \<and> \<bar>snd (snd p) - x\<bar> \<le> 1} \<le> 8"
proof -
  let ?A = "{k. k < d \<and> \<bar>int k - z\<bar> \<le> 1}"
  let ?B = "{j. j < h \<and> \<bar>int j - y\<bar> \<le> 1}"
  let ?C = "{i. i < w \<and> \<bar>int i - x\<bar> \<le> 1}"
  let ?phi = "\<lambda>p :: nat \<times> nat \<times> nat. (int (fst p), int (fst (snd p)), int (snd (snd p)))"
  from ib have c0: "0 \<le> z" "z < int d" "0 \<le> y" "y < int h" "0 \<le> x" "x < int w"
    by (simp_all add: in_bounds_def)
  have "?N = ?phi ` (?A \<times> ?B \<times> ?C)"
  proof (intro set_eqI iffI)
    fix p assume "p \<in> ?N"
    then obtain pz py px where p: "p = (pz, py, px)"
      and b: "0 \<le> pz" "pz < int d" "0 \<le> py" "py < int h" "0 \<le> px" "px < int w"
      and n: "\<bar>pz - z\<bar> \<le> 1" "\<bar>py - y\<bar> \<le> 1" "\<bar>px - x\<bar> \<le> 1"
      by (cases p) (auto simp: in_bounds_def)
    from b n have "(nat pz, nat py, nat px) \<in> ?A \<times> ?B \<times> ?C" by auto
    moreover from b have "p = ?phi (nat pz, nat py, nat px)" unfolding p by simp
    ultimately show "p \<in> ?phi ` (?A \<times> ?B \<times> ?C)" by (rule rev_image_eqI)
  qed (auto simp: in_bounds_def)
  moreover have "inj_on ?phi (?A \<times> ?B \<times> ?C)"
    by (intro inj_onI) (auto simp: prod_eq_iff)
  ultimately have card: "card ?N = card ?A * (card ?B * card ?C)"
    by (simp add: card_image card_cartesian_product)
  have "card ?A * (card ?B * card ?C) \<le> 3 * (3 * 3)"
    by (intro mult_le_mono axis_card c0)
  with card show "card ?N \<le> 27" by simp
  assume "corner (d, h, w) (z, y, x)"
  then have "z = 0 \<or> z = int d - 1" "y = 0 \<or> y = int h - 1" "x = 0 \<or> x = int w - 1"
    by (simp_all add: corner_def)
  then have "card ?A * (card ?B * card ?C) \<le> 2 * (2 * 2)"
    by (intro mult_le_mono axis_card c0)
  with card show "card ?N \<le> 8" by simp
qed

lemma n_surrounding_cells_card:
  assumes ws: "well_shaped g" and ib: "in_bounds (shape g) (z, y, x)"
  shows "n_surrounding_cells g z y x = Inr (int (card (alive_neighbours g (z, y, x))))"
proof -
  obtain d h w where sh: "shape g = (d, h, w)" by (cases "shape g")
  from ib sh have c0: "0 \<le> z" "z < int d" "0 \<le> y" "y < int h" "0 \<le> x" "x < int w"
    by (simp_all add: in_bounds_def)
  let ?S = "{p. in_bounds (d, h, w) p \<and>
                \<bar>fst p - z\<bar> \<le> 1 \<and> \<bar>fst (snd p) - y\<bar> \<le> 1 \<and> \<bar>snd (snd p) - x\<bar> \<le> 1 \<and>
                alive g p}"
  have total: "np_sum (slice3 g (max (z - 1) 0, min (int d) (z + 2))
                 (max (y - 1) 0, min (int h) (y + 2)) (max (x - 1) 0, min (int w) (x + 2))) =
               int (card ?S)"
    using c0 by (subst block_sum[OF ws sh]) (simp_all add: block_card[OF sh ib[unfolded sh]])
  have fin: "finite ?S"
    by (rule finite_subset[OF _ finite_in_bounds[of "(d, h, w)"]]) auto
  have nb: "alive_neighbours g (z, y, x) = ?S - {(z, y, x)}"
    unfolding alive_neighbours_def adjacent_def sh by auto
  have self: "(z, y, x) \<in> ?S \<longleftrightarrow> items g ! nat z ! nat y ! nat x"
    using ib[unfolded sh] by (simp add: alive_def getitem_in[OF ib])
  have "int (card (?S - {(z, y, x)})) =
        (if items g ! nat z ! nat y ! nat x then int (card ?S) - 1 else int (card ?S))"
  proof (cases "items g ! nat z ! nat y ! nat x")
    case True
    with self have m: "(z, y, x) \<in> ?S" by simp
    then have "?S \<noteq> {}" by blast
    then have "0 < card ?S" using fin by (simp only: card_gt_0_iff) simp
    with True m show ?thesis by (simp add: card_Diff_singleton)
  next
    case False
    with self have "(z, y, x) \<notin> ?S" by simp
    with False show ?thesis by simp
  qed
  then show ?thesis
    unfolding nb
    by (simp add: n_surrounding_cells_def sh Let_def np_clip_bounds c0 total
        getitem_in[OF ib])
qed


lemma alive_neighbours_bounds:
  assumes ib: "in_bounds (shape g) c"
  shows "card (alive_neighbours g c) \<le> 26"
    and "corner (shape g) c \<Longrightarrow> card (alive_neighbours g c) \<le> 7"
proof -
  obtain z y x where c: "c = (z, y, x)" by (cases c)
  obtain d h w where sh: "shape g = (d, h, w)" by (cases "shape g")
  let ?N = "{p. in_bounds (d, h, w) p \<and>
                \<bar>fst p - z\<bar> \<le> 1 \<and> \<bar>fst (snd p) - y\<bar> \<le> 1 \<and> \<bar>snd (snd p) - x\<bar> \<le> 1}"
  have ib': "in_bounds (d, h, w) (z, y, x)" using ib c sh by simp
  have fin: "finite ?N"
    by (rule finite_subset[OF _ finite_in_bounds[of "(d, h, w)"]]) auto
  have mem: "(z, y, x) \<in> ?N" using ib' by simp
  have sub: "alive_neighbours g c \<subseteq> ?N - {(z, y, x)}"
    unfolding alive_neighbours_def adjacent_def c sh by auto
  have le: "card (alive_neighbours g c) \<le> card ?N - 1"
    using card_mono[OF _ sub] fin mem by (simp add: card_Diff_singleton)
  from block_size(1)[OF ib'] le show "card (alive_neighbours g c) \<le> 26" by simp
  assume "corner (shape g) c"
  then have "corner (d, h, w) (z, y, x)" using c sh by simp
  from block_size(2)[OF ib' this] le show "card (alive_neighbours g c) \<le> 7" by simp
qed

section \<open>The colour map\<close>













lemma recoloured_outside:
  assumes "recoloured shp gen prev cur" "in_bounds (shape prev) idx" "\<not> in_bounds shp idx"
  shows "getitem cur idx = getitem prev idx"
  using assms unfolding recoloured_def by fastforce




section \<open>Construction\<close>

text \<open>
  Claim C5, as the code has it: constructing a \<^verbatim>\<open>GameOfLife\<close> never fails, whatever
  array the reference points to; the object holds that reference, no recorded
  generation and a calculation time of 0.
\<close>

theorem init_always_succeeds:
  "GameOfLife_init g = Inr \<lparr>grid = g, prev_generations = [], calculation_time = 0\<rparr>"
  by (simp add: GameOfLife_init_def)

text \<open>
  Claim C5 as stated fails: with an array of shape \<open>(0, 1, 1)\<close> in the store, the
  constructor returns an object and no error.
\<close>

theorem init_zero_dimension_counterexample:
  "shape (np_zeros (0, 1, 1) False) = (0, 1, 1) \<and>
   well_shaped (np_zeros (0, 1, 1) False) \<and>
   [np_zeros (0, 1, 1) False] ! 0 = np_zeros (0, 1, 1) False \<and>
   GameOfLife_init 0 = Inr \<lparr>grid = 0, prev_generations = [], calculation_time = 0\<rparr>"
  by (simp add: GameOfLife_init_def np_zeros_def well_shaped_def)

section \<open>The transition rule\<close>

text \<open>
  Claim C1. \<^verbatim>\<open>step\<close> never fails and computes the next generation from the grid as
  it was before the call, which it leaves untouched: at every coordinate of the
  lattice, a cell that was alive is alive afterwards iff its neighbour count was
  exactly 9, a cell that was dead is alive afterwards iff its neighbour count was
  exactly 4, and every other cell is dead.
\<close>

theorem step_rule:
  assumes "grid self < length s"
  shows "\<exists>s' self'. step start_time end_time (s, self) = Inr (s', self') \<and>
           s' ! grid self = s ! grid self \<and>
           shape (s' ! grid self') = shape (s ! grid self) \<and>
           (\<forall>z y x. in_bounds (shape (s ! grid self)) (z, y, x) \<longrightarrow>
              (\<exists>c n. getitem (s ! grid self) (z, y, x) = Inr c \<and>
                     n_surrounding_cells (s ! grid self) z y x = Inr n \<and>
                     getitem (s' ! grid self') (z, y, x) = Inr (if c then n = 9 else n = 4)))"
proof -
  from step_result[OF assms, of start_time end_time] obtain arr where
    arr: "step start_time end_time (s, self) =
            Inr (s @ [arr], self\<lparr>grid := length s,
                                 prev_generations := prev_generations self @ [length s],
                                 calculation_time := calculation_time self + (end_time - start_time)\<rparr>)"
      "shape arr = shape (s ! grid self)"
      "\<And>idx. in_bounds (shape (s ! grid self)) idx \<Longrightarrow> getitem arr idx = step_cell (s ! grid self) idx"
    by blast
  have "\<exists>c n. getitem (s ! grid self) (z, y, x) = Inr c \<and>
              n_surrounding_cells (s ! grid self) z y x = Inr n \<and>
              getitem arr (z, y, x) = Inr (if c then n = 9 else n = 4)"
    if ib: "in_bounds (shape (s ! grid self)) (z, y, x)" for z y x
    using step_cell_in[OF ib] arr(3)[OF ib] by auto
  then show ?thesis
    using arr(1,2) assms by (simp add: nth_append)
qed

text \<open>
  On a \<open>1 \<times> 2 \<times> 3\<close> grid: the dead cell \<open>(0, 0, 1)\<close> has four alive neighbours and is
  born, the alive cell \<open>(0, 0, 0)\<close> has two and dies.
\<close>

theorem step_rule_witness:
  "grid \<lparr>grid = 0, prev_generations = [], calculation_time = 0\<rparr>
     < length [\<lparr>shape = (1, 2, 3), items = [[[True, False, True], [True, True, False]]]\<rparr>] \<and>
   (\<exists>s' self'.
      step 0 1 ([\<lparr>shape = (1, 2, 3), items = [[[True, False, True], [True, True, False]]]\<rparr>],
                \<lparr>grid = 0, prev_generations = [], calculation_time = 0\<rparr>) = Inr (s', self') \<and>
      getitem (s' ! grid self') (0, 0, 1) = Inr True \<and>
      getitem (s' ! grid self') (0, 0, 0) = Inr False)"
proof -
  let ?g = "\<lparr>shape = (1, 2, 3), items = [[[True, False, True], [True, True, False]]]\<rparr> :: bool ndarray"
  let ?self = "\<lparr>grid = 0, prev_generations = [], calculation_time = 0\<rparr>"
  have h: "grid ?self < length [?g]" by simp
  have n1: "n_surrounding_cells ?g 0 0 1 = Inr 4"
    by (simp add: n_surrounding_cells_def getitem_def index_axis_def np_clip_def slice3_def
        slice_def slice_bound_def np_sum_def)
  have n0: "n_surrounding_cells ?g 0 0 0 = Inr 2"
    by (simp add: n_surrounding_cells_def getitem_def index_axis_def np_clip_def slice3_def
        slice_def slice_bound_def np_sum_def)
  have c1: "getitem ?g (0, 0, 1) = Inr False" and c0: "getitem ?g (0, 0, 0) = Inr True"
    by (simp_all add: getitem_def index_axis_def)
  have b: "in_bounds (shape ?g) (0, 0, 1)" "in_bounds (shape ?g) (0, 0, 0)"
    by (simp_all add: in_bounds_def)
  from step_rule[OF h, of 0 1] obtain s' self' where
    st: "step 0 1 ([?g], ?self) = Inr (s', self')"
    and r: "\<And>z y x. in_bounds (shape ?g) (z, y, x) \<Longrightarrow>
              (\<exists>c n. getitem ?g (z, y, x) = Inr c \<and> n_surrounding_cells ?g z y x = Inr n \<and>
                     getitem (s' ! grid self') (z, y, x) = Inr (if c then n = 9 else n = 4))"
    by auto
  from r[OF b(1)] n1 c1 have "getitem (s' ! grid self') (0, 0, 1) = Inr True" by auto
  moreover from r[OF b(2)] n0 c0 have "getitem (s' ! grid self') (0, 0, 0) = Inr False" by auto
  ultimately show ?thesis using h st by blast
qed

section \<open>The recorded history\<close>

text \<open>
  Claim C7. From a freshly constructed object, \<open>N\<close> calls of \<^verbatim>\<open>step\<close> succeed and
  leave exactly \<open>N\<close> recorded generations. After any \<open>k \<le> N\<close> of the calls the
  recorded generations, as references and as arrays, are the first \<open>k\<close> of those
  present after all \<open>N\<close> calls, the store of that moment is an initial part of the
  final store, and the newest recorded generation is the grid that call produced:
  the history is in call order, oldest first, and no later call changes, drops or
  reorders an earlier entry.
\<close>

theorem history_append_only:
  assumes "GameOfLife_init g = Inr self" "g < length s" "well_shaped (s ! g)"
  shows "\<exists>st. step_n ts (s, self) = Inr st \<and> length (snapshots st) = length ts \<and>
           (\<forall>k\<le>length ts. \<exists>stk. step_n (take k ts) (s, self) = Inr stk \<and>
               snapshots stk = take k (snapshots st) \<and>
               prev_generations (snd stk) = take k (prev_generations (snd st)) \<and>
               take (length (fst stk)) (fst st) = fst stk \<and>
               (0 < k \<longrightarrow> last (snapshots stk) = current_grid stk))"
proof -
  have c0: "consistent (s, self)" using assms by (rule init_consistent)
  have p0: "prev_generations self = []" "snapshots (s, self) = []"
    using assms(1) by (auto simp: GameOfLife_init_def snapshots_def)
  from step_n_result[OF c0, of ts] obtain new self' where
    all: "step_n ts (s, self) = Inr (s @ new, self')" "length new = length ts"
      "snapshots (s @ new, self') = new"
      "prev_generations self' = [length s..<length s + length ts]"
    unfolding p0 by auto
  have "\<exists>stk. step_n (take k ts) (s, self) = Inr stk \<and>
               snapshots stk = take k (snapshots (s @ new, self')) \<and>
               prev_generations (snd stk) = take k (prev_generations (snd (s @ new, self'))) \<and>
               take (length (fst stk)) (fst (s @ new, self')) = fst stk \<and>
               (0 < k \<longrightarrow> last (snapshots stk) = current_grid stk)"
    if k: "k \<le> length ts" for k
  proof -
    from step_n_result[OF c0, of "take k ts"] k obtain newk selfk where
      pre: "step_n (take k ts) (s, self) = Inr (s @ newk, selfk)" "consistent (s @ newk, selfk)"
        "length newk = k" "snapshots (s @ newk, selfk) = newk"
        "prev_generations selfk = [length s..<length s + k]"
        "current_grid (s @ newk, selfk) = last (s ! grid self # newk)"
      unfolding p0 by (auto simp: min_def)
    from step_n_result[OF pre(2), of "drop k ts"] obtain more self'' where
      post: "step_n (drop k ts) (s @ newk, selfk) = Inr ((s @ newk) @ more, self'')"
      by blast
    have "step_n (take k ts @ drop k ts) (s, self) = Inr ((s @ newk) @ more, self'')"
      unfolding step_n_append by (simp add: pre(1) post)
    with all(1) have new: "new = newk @ more" by simp
    have "0 < k \<Longrightarrow> last newk = last (s ! grid self # newk)"
      using pre(3) by (cases newk) auto
    then have l: "0 < k \<longrightarrow> last (snapshots (s @ newk, selfk)) = current_grid (s @ newk, selfk)"
      using pre(4,6) by simp
    have t1: "take k (snapshots (s @ new, self')) = newk"
      using all(3) pre(3) by (simp add: new)
    have t2: "take k (prev_generations self') = prev_generations selfk"
      unfolding all(4) pre(5) using k by simp
    have t3: "take (length (s @ newk)) (s @ new) = s @ newk"
      unfolding new by simp
    show ?thesis
      using pre(1,4) l t1 t2 t3 by (intro exI[of _ "(s @ newk, selfk)"]) simp

  qed
  then show ?thesis
    using all by (intro exI[of _ "(s @ new, self')"]) simp
qed

text \<open>Two calls on a \<open>1 \<times> 1 \<times> 2\<close> grid.\<close>

theorem history_append_only_witness:
  "GameOfLife_init 0 = Inr \<lparr>grid = 0, prev_generations = [], calculation_time = 0\<rparr> \<and>
   0 < length [\<lparr>shape = (1, 1, 2), items = [[[True, False]]]\<rparr>] \<and>
   well_shaped ([\<lparr>shape = (1, 1, 2), items = [[[True, False]]]\<rparr>] ! 0) \<and>
   (\<exists>st. step_n [(0, 1), (1, 2)]
            ([\<lparr>shape = (1, 1, 2), items = [[[True, False]]]\<rparr>],
             \<lparr>grid = 0, prev_generations = [], calculation_time = 0\<rparr>) = Inr st \<and>
         length (snapshots st) = 2 \<and>
         (\<exists>st1. step_n [(0, 1)]
                  ([\<lparr>shape = (1, 1, 2), items = [[[True, False]]]\<rparr>],
                   \<lparr>grid = 0, prev_generations = [], calculation_time = 0\<rparr>) = Inr st1 \<and>
                snapshots st1 = take 1 (snapshots st) \<and>
                last (snapshots st1) = current_grid st1))"
proof -
  let ?g = "\<lparr>shape = (1, 1, 2), items = [[[True, False]]]\<rparr> :: bool ndarray"
  let ?self = "\<lparr>grid = 0, prev_generations = [], calculation_time = 0\<rparr>"
  let ?ts = "[(0, 1), (1, 2)] :: (real \<times> real) list"
  have h1: "GameOfLife_init 0 = Inr ?self" by (simp add: GameOfLife_init_def)
  have h2: "0 < length [?g]" by simp
  have h3: "well_shaped ([?g] ! 0)" by (simp add: well_shaped_def)
  from history_append_only[OF h1 h2 h3, of ?ts] obtain st where
    st: "step_n ?ts ([?g], ?self) = Inr st" "length (snapshots st) = length ?ts"
    and pre: "\<And>k. k \<le> length ?ts \<Longrightarrow> \<exists>stk. step_n (take k ?ts) ([?g], ?self) = Inr stk \<and>
               snapshots stk = take k (snapshots st) \<and>
               (0 < k \<longrightarrow> last (snapshots stk) = current_grid stk)"
    by blast
  from pre[of 1] obtain st1 where
    "step_n [(0, 1)] ([?g], ?self) = Inr st1" "snapshots st1 = take 1 (snapshots st)"
    "last (snapshots st1) = current_grid st1"
    by auto
  with st h1 h2 h3 show ?thesis by auto
qed

section \<open>Determinism\<close>

text \<open>
  Claim C8. Two objects constructed from equal initial grids, wherever the two
  arrays live and whatever the clock reads, go through the same grids: after the same
  number of calls of \<^verbatim>\<open>step\<close> their current grids are equal, and so are their
  recorded generations, which are the grids after each of the calls.
\<close>

theorem determinism:
  assumes "GameOfLife_init g1 = Inr self1" "GameOfLife_init g2 = Inr self2"
    and "g1 < length s1" "g2 < length s2" "well_shaped (s1 ! g1)"
    and "s1 ! g1 = s2 ! g2" "length ts1 = length ts2"
  shows "\<exists>st1 st2. step_n ts1 (s1, self1) = Inr st1 \<and> step_n ts2 (s2, self2) = Inr st2 \<and>
           current_grid st1 = current_grid st2 \<and> snapshots st1 = snapshots st2"
proof -
  have c1: "consistent (s1, self1)" using assms(1,3,5) by (rule init_consistent)
  have c2: "consistent (s2, self2)" using assms(2,4,5,6) by (intro init_consistent) simp_all
  have g: "grid self1 = g1" "grid self2 = g2"
    and p0: "snapshots (s1, self1) = []" "snapshots (s2, self2) = []"
    using assms(1,2) by (auto simp: GameOfLife_init_def snapshots_def)
  from step_n_deterministic[OF c1 c2 _ assms(7)] assms(6) g obtain new self1' self2' where
    run: "step_n ts1 (s1, self1) = Inr (s1 @ new, self1')"
      "step_n ts2 (s2, self2) = Inr (s2 @ new, self2')"
    by auto
  from step_n_result[OF c1, of ts1] run(1) have
    r1: "current_grid (s1 @ new, self1') = last (s1 ! g1 # new)" "snapshots (s1 @ new, self1') = new"
    unfolding p0 g by auto
  from step_n_result[OF c2, of ts2] run(2) have
    r2: "current_grid (s2 @ new, self2') = last (s2 ! g2 # new)" "snapshots (s2 @ new, self2') = new"
    unfolding p0 g by auto
  show ?thesis
    using run r1 r2 assms(6) by (intro exI[of _ "(s1 @ new, self1')"] exI[of _ "(s2 @ new, self2')"]) simp
qed

text \<open>Two stores that hold the same \<open>1 \<times> 1 \<times> 2\<close> grid at different addresses.\<close>

theorem determinism_witness:
  "GameOfLife_init 0 = Inr \<lparr>grid = 0, prev_generations = [], calculation_time = 0\<rparr> \<and>
   GameOfLife_init 1 = Inr \<lparr>grid = 1, prev_generations = [], calculation_time = 0\<rparr> \<and>
   0 < length [\<lparr>shape = (1, 1, 2), items = [[[True, False]]]\<rparr>] \<and>
   1 < length [np_zeros (0, 1, 1) False, \<lparr>shape = (1, 1, 2), items = [[[True, False]]]\<rparr>] \<and>
   well_shaped ([\<lparr>shape = (1, 1, 2), items = [[[True, False]]]\<rparr>] ! 0) \<and>
   [\<lparr>shape = (1, 1, 2), items = [[[True, False]]]\<rparr>] ! 0 =
     [np_zeros (0, 1, 1) False, \<lparr>shape = (1, 1, 2), items = [[[True, False]]]\<rparr>] ! 1 \<and>
   length ([(0, 1), (1, 2)] :: (real \<times> real) list) =
     length ([(5, 9), (11, 12)] :: (real \<times> real) list) \<and>
   (\<exists>st1 st2.
      step_n [(0, 1), (1, 2)]
        ([\<lparr>shape = (1, 1, 2), items = [[[True, False]]]\<rparr>],
         \<lparr>grid = 0, prev_generations = [], calculation_time = 0\<rparr>) = Inr st1 \<and>
      step_n [(5, 9), (11, 12)]
        ([np_zeros (0, 1, 1) False, \<lparr>shape = (1, 1, 2), items = [[[True, False]]]\<rparr>],
         \<lparr>grid = 1, prev_generations = [], calculation_time = 0\<rparr>) = Inr st2 \<and>
      current_grid st1 = current_grid st2 \<and> snapshots st1 = snapshots st2)"
proof -
  let ?g = "\<lparr>shape = (1, 1, 2), items = [[[True, False]]]\<rparr> :: bool ndarray"
  let ?s1 = "[?g]" and ?s2 = "[np_zeros (0, 1, 1) False, ?g]"
  let ?self1 = "\<lparr>grid = 0, prev_generations = [], calculation_time = 0\<rparr>"
  let ?self2 = "\<lparr>grid = 1, prev_generations = [], calculation_time = 0\<rparr>"
  let ?ts1 = "[(0, 1), (1, 2)] :: (real \<times> real) list"
  let ?ts2 = "[(5, 9), (11, 12)] :: (real \<times> real) list"
  have h1: "GameOfLife_init 0 = Inr ?self1" by (simp add: GameOfLife_init_def)
  have h2: "GameOfLife_init 1 = Inr ?self2" by (simp add: GameOfLife_init_def)
  have h3: "0 < length ?s1" by simp
  have h4: "1 < length ?s2" by simp
  have h5: "well_shaped (?s1 ! 0)" by (simp add: well_shaped_def)
  have h6: "?s1 ! 0 = ?s2 ! 1" by simp
  have h7: "length ?ts1 = length ?ts2" by simp
  from determinism[OF h1 h2 h3 h4 h5 h6 h7] h1 h2 h3 h4 h5 h6 h7 show ?thesis by blast
qed

section \<open>The shape of the grid\<close>

text \<open>
  Claim C9. The shape of the current grid after a call of \<^verbatim>\<open>step\<close>, and after any
  number of calls, is its shape before: nothing else assigns \<^verbatim>\<open>self.grid\<close>, so the
  dimensions are those given at construction.
\<close>

theorem shape_invariant:
  assumes "consistent (s, self)"
  shows "(\<exists>st. step start_time end_time (s, self) = Inr st \<and>
               shape (current_grid st) = shape (current_grid (s, self))) \<and>
         (\<exists>st. step_n ts (s, self) = Inr st \<and>
               shape (current_grid st) = shape (current_grid (s, self)))"
proof -
  from step_consistent[OF assms, of start_time end_time]
  have one: "\<exists>st. step start_time end_time (s, self) = Inr st \<and>
               shape (current_grid st) = shape (current_grid (s, self))"
    by (auto simp: current_grid_def)
  from step_n_result[OF assms, of ts]
  have many: "\<exists>st. step_n ts (s, self) = Inr st \<and>
               shape (current_grid st) = shape (current_grid (s, self))"
    by (auto simp: current_grid_def)
  from one many show ?thesis ..
qed

text \<open>One call and two calls on a \<open>1 \<times> 1 \<times> 2\<close> grid.\<close>

theorem shape_invariant_witness:
  "consistent ([\<lparr>shape = (1, 1, 2), items = [[[True, False]]]\<rparr>],
               \<lparr>grid = 0, prev_generations = [], calculation_time = 0\<rparr>) \<and>
   (\<exists>st. step 0 1 ([\<lparr>shape = (1, 1, 2), items = [[[True, False]]]\<rparr>],
                    \<lparr>grid = 0, prev_generations = [], calculation_time = 0\<rparr>) = Inr st \<and>
         shape (current_grid st) = (1, 1, 2)) \<and>
   (\<exists>st. step_n [(0, 1), (1, 2)]
            ([\<lparr>shape = (1, 1, 2), items = [[[True, False]]]\<rparr>],
             \<lparr>grid = 0, prev_generations = [], calculation_time = 0\<rparr>) = Inr st \<and>
         shape (current_grid st) = (1, 1, 2))"
proof -
  let ?g = "\<lparr>shape = (1, 1, 2), items = [[[True, False]]]\<rparr> :: bool ndarray"
  let ?self = "\<lparr>grid = 0, prev_generations = [], calculation_time = 0\<rparr>"
  have h: "consistent ([?g], ?self)" by (simp add: consistent_def well_shaped_def)
  from shape_invariant[OF h, of 0 1 "[(0, 1), (1, 2)]"] h
  show ?thesis by (simp add: current_grid_def)
qed

section \<open>The neighbour count\<close>

text \<open>
  Claim C2. At every coordinate of the lattice \<^verbatim>\<open>n_surrounding_cells\<close> returns the
  number of alive neighbours: the alive cells of the lattice, other than the cell
  itself, whose coordinates each differ from the cell's by at most one. Cells outside
  the lattice do not exist and nothing wraps around. The result is therefore between
  0 and 26, and at most 7 at a corner of the lattice.
\<close>

theorem neighbour_count:
  assumes "well_shaped g" "in_bounds (shape g) (z, y, x)"
  shows "\<exists>n. n_surrounding_cells g z y x = Inr n \<and>
           n = int (card (alive_neighbours g (z, y, x))) \<and>
           0 \<le> n \<and> n \<le> 26 \<and>
           (corner (shape g) (z, y, x) \<longrightarrow> n \<le> 7)"
  using n_surrounding_cells_card[OF assms] alive_neighbours_bounds[OF assms(2)]
  by simp

text \<open>The corner \<open>(0, 0, 0)\<close> of a \<open>2 \<times> 2 \<times> 2\<close> lattice that is alive everywhere.\<close>

theorem neighbour_count_witness:
  "well_shaped (np_zeros (2, 2, 2) True) \<and>
   in_bounds (shape (np_zeros (2, 2, 2) True)) (0, 0, 0) \<and>
   corner (shape (np_zeros (2, 2, 2) True)) (0, 0, 0) \<and>
   n_surrounding_cells (np_zeros (2, 2, 2) True) 0 0 0 = Inr 7 \<and>
   card (alive_neighbours (np_zeros (2, 2, 2) True) (0, 0, 0)) = 7"
proof -
  let ?g = "np_zeros (2, 2, 2) True"
  have h1: "well_shaped ?g" by (rule np_zeros_well_shaped)
  have h2: "in_bounds (shape ?g) (0, 0, 0)" by (simp add: np_zeros_shape in_bounds_def)
  have h3: "corner (shape ?g) (0, 0, 0)" by (simp add: np_zeros_shape corner_def)
  have ev: "n_surrounding_cells ?g 0 0 0 = Inr 7"
    by (simp add: n_surrounding_cells_def np_zeros_def getitem_def index_axis_def np_clip_def
        slice3_def slice_def slice_bound_def np_sum_def numeral_2_eq_2)
  from neighbour_count[OF h1 h2] ev
  have "card (alive_neighbours ?g (0, 0, 0)) = 7" by simp
  with h1 h2 h3 ev show ?thesis by simp
qed

section \<open>Coordinates outside the lattice\<close>



section \<open>A single alive cell\<close>

text \<open>
  Claim C6, as the code has it: in a lattice whose only alive cell is \<open>c\<close>,
  \<^verbatim>\<open>n_surrounding_cells\<close> returns 0 at \<open>c\<close> itself (a cell is not its own neighbour),
  1 at every other coordinate of the lattice next to \<open>c\<close>, and 0 at every coordinate
  farther away.
\<close>

theorem single_alive_cell:
  assumes "well_shaped g" "in_bounds (shape g) c"
    and "\<forall>q. in_bounds (shape g) q \<longrightarrow> (alive g q \<longleftrightarrow> q = c)"
    and "in_bounds (shape g) (z, y, x)"
  shows "n_surrounding_cells g z y x = Inr (if adjacent (z, y, x) c then 1 else 0)"
proof -
  have sym: "adjacent c (z, y, x) \<longleftrightarrow> adjacent (z, y, x) c"
    by (cases c) (auto simp: adjacent_def)
  have "alive_neighbours g (z, y, x) = {q. q = c \<and> adjacent c (z, y, x)}"
    using assms(2,3) unfolding alive_neighbours_def by blast
  then have "alive_neighbours g (z, y, x) = (if adjacent (z, y, x) c then {c} else {})"
    unfolding sym by simp
  then show ?thesis
    unfolding n_surrounding_cells_card[OF assms(1,4)] by simp
qed

text \<open>
  Claim C6 as stated fails: in the \<open>1 \<times> 1 \<times> 2\<close> lattice whose only alive cell is
  \<open>(0, 0, 0)\<close>, the count at the other coordinate \<open>(0, 0, 1)\<close> is 1, not 0.
\<close>

theorem single_alive_cell_counterexample:
  "getitem \<lparr>shape = (1, 1, 2), items = [[[True, False]]]\<rparr> (0, 0, 0) = Inr True \<and>
   getitem \<lparr>shape = (1, 1, 2), items = [[[True, False]]]\<rparr> (0, 0, 1) = Inr False \<and>
   ndindex (shape \<lparr>shape = (1, 1, 2), items = [[[True, False]]]\<rparr>) = [(0, 0, 0), (0, 0, 1)] \<and>
   n_surrounding_cells \<lparr>shape = (1, 1, 2), items = [[[True, False]]]\<rparr> 0 0 1 = Inr 1"
  by (simp add: ndindex_def n_surrounding_cells_def getitem_def index_axis_def np_clip_def
      slice3_def slice_def slice_bound_def np_sum_def upt_rec)

text \<open>A row of three cells, the first one alive.\<close>

theorem single_alive_cell_witness:
  "well_shaped \<lparr>shape = (1, 1, 3), items = [[[True, False, False]]]\<rparr> \<and>
   in_bounds (shape \<lparr>shape = (1, 1, 3), items = [[[True, False, False]]]\<rparr>) (0, 0, 0) \<and>
   alive \<lparr>shape = (1, 1, 3), items = [[[True, False, False]]]\<rparr> (0, 0, 0) \<and>
   \<not> alive \<lparr>shape = (1, 1, 3), items = [[[True, False, False]]]\<rparr> (0, 0, 1) \<and>
   \<not> alive \<lparr>shape = (1, 1, 3), items = [[[True, False, False]]]\<rparr> (0, 0, 2) \<and>
   n_surrounding_cells \<lparr>shape = (1, 1, 3), items = [[[True, False, False]]]\<rparr> 0 0 0 = Inr 0 \<and>
   n_surrounding_cells \<lparr>shape = (1, 1, 3), items = [[[True, False, False]]]\<rparr> 0 0 1 = Inr 1 \<and>
   n_surrounding_cells \<lparr>shape = (1, 1, 3), items = [[[True, False, False]]]\<rparr> 0 0 2 = Inr 0"
proof -
  let ?g = "\<lparr>shape = (1, 1, 3), items = [[[True, False, False]]]\<rparr> :: bool ndarray"
  have h1: "well_shaped ?g" by (simp add: well_shaped_def)
  have h2: "in_bounds (shape ?g) (0, 0, 0)" by (simp add: in_bounds_def)
  have a: "alive ?g (0, 0, 0)" "\<not> alive ?g (0, 0, 1)" "\<not> alive ?g (0, 0, 2)"
    by (simp_all add: alive_def getitem_def index_axis_def)
  have h3: "\<forall>q. in_bounds (shape ?g) q \<longrightarrow> (alive ?g q \<longleftrightarrow> q = (0, 0, 0))"
  proof (intro allI impI)
    fix q assume "in_bounds (shape ?g) q"
    then have "q = (0, 0, 0) \<or> q = (0, 0, 1) \<or> q = (0, 0, 2)"
      by (cases q) (auto simp: in_bounds_def)
    with a show "alive ?g q \<longleftrightarrow> q = (0, 0, 0)" by auto
  qed
  have b: "in_bounds (shape ?g) (0, 0, 1)" "in_bounds (shape ?g) (0, 0, 2)"
    by (simp_all add: in_bounds_def)
  have "n_surrounding_cells ?g 0 0 0 = Inr 0"
    using single_alive_cell[OF h1 h2 h3 h2] by (simp add: adjacent_def)
  moreover have "n_surrounding_cells ?g 0 0 1 = Inr 1"
    using single_alive_cell[OF h1 h2 h3 b(1)] by (simp add: adjacent_def)
  moreover have "n_surrounding_cells ?g 0 0 2 = Inr 0"
    using single_alive_cell[OF h1 h2 h3 b(2)] by (simp add: adjacent_def)
  ultimately show ?thesis using h1 h2 a by simp
qed

section \<open>The colours of the display\<close>




section \<open>The size of the colour map\<close>




end
